theory Spec2Isabelle
  imports Complex_Main "HOL-Library.Char_ord" "HOL-Library.List_Lexorder" "HOL-Library.Sublist"
begin

section \<open>Python values used by the program\<close>

text \<open>
  A Python \<open>str\<close> is a sequence of Unicode code points. Text that comes from outside
  the program (the raw names of the data sources) is modelled as such: a list of natural
  numbers, \<open>ustr\<close>. Text that the program builds itself (normalised names, variations,
  domains, status values) holds code points below U+0100 only and is modelled as a
  \<open>string\<close>, a list of characters, each read as the code point of the same number.
  \<open>len\<close> is \<open>length\<close>, \<open>+\<close> and f-string concatenation are \<open>@\<close>, and strings are
  compared as Python compares them, code point by code point. Python's \<open>int\<close> is \<open>int\<close>;
  \<open>//\<close> and \<open>%\<close> are \<open>div\<close> and \<open>mod\<close> (both round towards minus infinity) and raise
  \<open>ZeroDivisionError\<close> on a zero divisor, which the model writes out.
\<close>

type_synonym ustr = "nat list"

definition code_points :: "string \<Rightarrow> ustr" where
  "code_points s = map of_char s"


text \<open>The exceptions that occur in the modelled code; every one is a subclass of
  Python's \<open>Exception\<close>.\<close>

datatype exn =
    ZeroDivisionError
  | TypeError
  | AttributeError
  | KeyError
  | JSONDecodeError
  | RequestsConnectionError
  | RequestsTimeout
  | RequestException string
  | NXDOMAIN
  | NoAnswer
  | LifetimeTimeout
  | NoNameservers
  | DNSException string

text \<open>\<open>str.lower()\<close> on the code points below U+0100: the ASCII capitals and the
  Latin-1 capitals U+00C0 to U+00DE (U+00D7, the multiplication sign, is no letter)
  move up by 32; every other code point is unchanged.\<close>

definition lower_char :: "char \<Rightarrow> char" where
  "lower_char c =
     (if (CHR ''A'' \<le> c \<and> c \<le> CHR ''Z'') \<or>
         (CHR 0xC0 \<le> c \<and> c \<le> CHR 0xDE \<and> c \<noteq> CHR 0xD7)
      then char_of (of_char c + (32::nat)) else c)"

definition lower :: "string \<Rightarrow> string" where
  "lower s = map lower_char s"

text \<open>\<open>xs[start:stop]\<close>: a negative index counts from the end, and both indices are
  clamped to the list.\<close>

definition py_slice :: "'a list \<Rightarrow> int \<Rightarrow> int \<Rightarrow> 'a list" where
  "py_slice xs start stop =
     (let n = int (length xs);
          clamp = (\<lambda>i. if i < 0 then max (i + n) 0 else min i n);
          lo = clamp start;
          hi = clamp stop
      in take (nat (hi - lo)) (drop (nat lo) xs))"

section \<open>data\_sources.py\<close>




section \<open>keywords.py\<close>

definition AFFIXES :: "string list" where
  "AFFIXES = [''ai'', ''labs'', ''cloud'', ''tech'']"

text \<open>The characters that the pattern \<open>[^a-z0-9]\<close> does not match, that is, those
  that \<open>re.sub\<close> keeps.\<close>

definition az09 :: "char \<Rightarrow> bool" where
  "az09 c \<longleftrightarrow> (CHR ''a'' \<le> c \<and> c \<le> CHR ''z'') \<or> (CHR ''0'' \<le> c \<and> c \<le> CHR ''9'')"

text \<open>\<open>normalize_name(name)\<close> on a name of code points below U+0100, where
  \<open>str.lower()\<close> is \<open>lower\<close>; \<open>generate_variations\<close> calls it on names that are
  normalised already.\<close>

definition normalize_name :: "string \<Rightarrow> string" where
  "normalize_name name = take 25 (filter az09 (lower name))"

text \<open>\<open>normalize_name(name)\<close> on any name. \<open>str.lower()\<close> belongs to Python, not to the
  program, and rests on the case tables of Unicode: it is the parameter \<open>str_lower\<close>.
  The pattern \<open>[^a-z0-9]\<close> is a range of code points.\<close>

definition az09_cp :: "nat \<Rightarrow> bool" where
  "az09_cp c \<longleftrightarrow>
     (of_char CHR ''a'' \<le> c \<and> c \<le> of_char CHR ''z'') \<or>
     (of_char CHR ''0'' \<le> c \<and> c \<le> of_char CHR ''9'')"

definition normalize_name_unicode :: "(ustr \<Rightarrow> ustr) \<Rightarrow> ustr \<Rightarrow> ustr" where
  "normalize_name_unicode str_lower name = take 25 (filter az09_cp (str_lower name))"

definition is_valid_name :: "'a list \<Rightarrow> bool" where
  "is_valid_name name \<longleftrightarrow> 3 \<le> length name \<and> length name \<le> 25"

text \<open>\<open>variations\<close> is a Python \<open>set\<close>; \<open>add\<close> is \<open>insert\<close>. The function returns
  \<open>list(variations)\<close>, the elements of the set, each once, in an order Python leaves
  open; the model returns the set itself (and the empty set for the literal \<open>[]\<close>).\<close>

definition generate_variations :: "string \<Rightarrow> string set" where
  "generate_variations base_name =
     (let clean_name = normalize_name base_name in
      if \<not> is_valid_name clean_name then {}
      else
        let variations = {clean_name};
            variations = fold (\<lambda>affix vs.
                let with_suffix = clean_name @ affix
                in if length with_suffix \<le> 25 then insert with_suffix vs else vs)
              AFFIXES variations;
            variations = fold (\<lambda>affix vs.
                let with_prefix = affix @ clean_name
                in if length with_prefix \<le> 25 then insert with_prefix vs else vs)
              AFFIXES variations
        in variations)"


text \<open>\<open>get_todays_batch(batch_size)\<close>. Its two readings of the environment are
  parameters: \<open>all_keywords\<close> is what \<open>process_all_keywords()\<close> returned and
  \<open>day_of_month\<close> is \<open>datetime.now().day\<close>. The prints are left out.\<close>

definition get_todays_batch :: "string list \<Rightarrow> int \<Rightarrow> int \<Rightarrow> exn + string list" where
  "get_todays_batch all_keywords day_of_month batch_size =
     (let n = int (length all_keywords) in
      if batch_size = 0 then Inl ZeroDivisionError
      else
        let total_batches = (n + batch_size - 1) div batch_size in
        if total_batches = 0 then Inl ZeroDivisionError
        else
          let current_batch = (day_of_month - 1) mod total_batches;
              start_index = current_batch * batch_size;
              end_index = min (start_index + batch_size) n
          in Inr (py_slice all_keywords start_index end_index))"


section \<open>main.py\<close>

definition DELAY_MS :: nat where
  "DELAY_MS = 1200"

definition STATUS_AVAILABLE :: string where
  "STATUS_AVAILABLE = ''AVAILABLE''"

definition STATUS_REGISTERED :: string where
  "STATUS_REGISTERED = ''REGISTERED''"

definition STATUS_POSSIBLE_AVAILABLE :: string where
  "STATUS_POSSIBLE_AVAILABLE = ''POSSIBLE_AVAILABLE''"

subsection \<open>The two network calls and what they give back\<close>

text \<open>What \<open>response.json()\<close> returns: \<open>None\<close>, a \<open>bool\<close>, an \<open>int\<close>, a \<open>float\<close>
  (kept as the text of its literal; the code never looks inside a number), a \<open>str\<close>,
  a \<open>list\<close>, or a \<open>dict\<close> (its items in order, one per key).\<close>

datatype json =
    JNull
  | JBool bool
  | JInt int
  | JFloat string
  | JStr string
  | JArr "json list"
  | JObj "(string \<times> json) list"

text \<open>\<open>requests.get(...)\<close> either raises or returns a response with a
  \<open>status_code\<close> and a body on which \<open>response.json()\<close> either raises or returns a
  value. \<open>resolver.resolve(domain, 'NS')\<close> (with the construction of the resolver
  before it) either raises or returns an answer holding the NS records.\<close>

datatype http_result = Response int "exn + json" | RequestRaises exn

datatype dns_result = Answer "string list" | ResolveRaises exn

text \<open>What a check does to the outside world, in order.\<close>

datatype event = Print string | HttpGet string | DnsResolve string | Sleep nat

record check_result =
  domain :: string
  status :: string

record result = check_result +
  base :: string

subsection \<open>check\_rdap\<close>

definition exn_bind :: "exn + 'a \<Rightarrow> ('a \<Rightarrow> exn + 'b) \<Rightarrow> exn + 'b" where
  "exn_bind m f = (case m of Inl e \<Rightarrow> Inl e | Inr x \<Rightarrow> f x)"

text \<open>\<open>k in data\<close> for a string \<open>k\<close>: a key of a dict, an element of a list, a
  substring of a string; \<open>TypeError\<close> on anything else.\<close>

definition str_in :: "string \<Rightarrow> json \<Rightarrow> exn + bool" where
  "str_in k data =
     (case data of
        JObj items \<Rightarrow> Inr (k \<in> fst ` set items)
      | JArr xs \<Rightarrow> Inr (JStr k \<in> set xs)
      | JStr s \<Rightarrow> Inr (sublist k s)
      | _ \<Rightarrow> Inl TypeError)"

text \<open>\<open>data[k]\<close> for a string \<open>k\<close>: only a dict can be indexed by a string.\<close>

definition subscript :: "json \<Rightarrow> string \<Rightarrow> exn + json" where
  "subscript data k =
     (case data of
        JObj items \<Rightarrow> (case map_of items k of Some v \<Rightarrow> Inr v | None \<Rightarrow> Inl KeyError)
      | _ \<Rightarrow> Inl TypeError)"

text \<open>\<open>any('active' in s.lower() or 'ok' in s.lower() for s in ...)\<close>: the entries
  are visited in order until one matches; \<open>s.lower()\<close> raises \<open>AttributeError\<close> on
  an entry that is no string.\<close>

fun has_active :: "json list \<Rightarrow> exn + bool" where
  "has_active [] = Inr False"
| "has_active (JStr s # rest) =
     (if sublist ''active'' (lower s) \<or> sublist ''ok'' (lower s) then Inr True
      else has_active rest)"
| "has_active (_ # rest) = Inl AttributeError"

text \<open>The first \<open>if\<close> of the 200 branch; \<open>True\<close> when it returns
  \<open>STATUS_REGISTERED\<close>.\<close>

definition registered_by_status :: "json \<Rightarrow> exn + bool" where
  "registered_by_status data =
     exn_bind (str_in ''status'' data) (\<lambda>present.
       if \<not> present then Inr False
       else exn_bind (subscript data ''status'') (\<lambda>v.
         case v of JArr entries \<Rightarrow> has_active entries | _ \<Rightarrow> Inr False))"

text \<open>The second \<open>if\<close>: \<open>'entities' in data or 'nameservers' in data\<close>.\<close>

definition registered_by_records :: "json \<Rightarrow> exn + bool" where
  "registered_by_records data =
     exn_bind (str_in ''entities'' data) (\<lambda>e.
       if e then Inr True else str_in ''nameservers'' data)"

text \<open>The body of the \<open>try\<close> block, after \<open>requests.get\<close> has answered.\<close>

definition check_rdap_try :: "http_result \<Rightarrow> exn + string option" where
  "check_rdap_try r =
     (case r of
        RequestRaises e \<Rightarrow> Inl e
      | Response status_code body \<Rightarrow>
          if status_code = 404 then Inr (Some STATUS_AVAILABLE)
          else if status_code = 200 then
            exn_bind body (\<lambda>data.
            exn_bind (registered_by_status data) (\<lambda>has_active.
              if has_active then Inr (Some STATUS_REGISTERED)
              else exn_bind (registered_by_records data) (\<lambda>has_records.
                if has_records then Inr (Some STATUS_REGISTERED) else Inr None)))
          else Inr None)"

definition rdap_url :: "string \<Rightarrow> string" where
  "rdap_url dname = ''https://rdap.org/domain/'' @ dname"

text \<open>\<open>check_rdap(domain)\<close>; \<open>response\<close> is what \<open>requests.get\<close> gives for the
  domain's URL. \<open>except Exception: return None\<close> catches whatever the body raised.\<close>

definition check_rdap ::
  "string \<Rightarrow> http_result \<Rightarrow> event list \<Rightarrow> (exn + string option) \<times> event list" where
  "check_rdap dname response trace =
     (case check_rdap_try response of
        Inl e \<Rightarrow> Inr None
      | Inr r \<Rightarrow> Inr r,
      trace @ [HttpGet (rdap_url dname)])"

subsection \<open>check\_dns\<close>

definition check_dns_try :: "dns_result \<Rightarrow> exn + string option" where
  "check_dns_try r =
     (case r of
        ResolveRaises e \<Rightarrow> Inl e
      | Answer nameservers \<Rightarrow>
          Inr (Some (if nameservers \<noteq> [] then STATUS_REGISTERED else STATUS_AVAILABLE)))"

text \<open>\<open>check_dns(domain)\<close>; \<open>answer\<close> is what the resolver gives for the domain. The
  first handler catches \<open>NXDOMAIN\<close> and \<open>NoAnswer\<close>, the second everything else.\<close>

definition check_dns ::
  "string \<Rightarrow> dns_result \<Rightarrow> event list \<Rightarrow> (exn + string option) \<times> event list" where
  "check_dns dname answer trace =
     (case check_dns_try answer of
        Inl e \<Rightarrow> if e = NXDOMAIN \<or> e = NoAnswer then Inr (Some STATUS_AVAILABLE) else Inr None
      | Inr r \<Rightarrow> Inr r,
      trace @ [DnsResolve dname])"

subsection \<open>check\_domain\<close>

text \<open>\<open>check_domain(domain)\<close>, with the answers the two services would give. The
  function can only fail where one of its calls fails, so its result is a sum as
  well.\<close>

definition check_domain ::
  "string \<Rightarrow> http_result \<Rightarrow> dns_result \<Rightarrow> event list \<Rightarrow> (exn + check_result) \<times> event list"
  where
  "check_domain dname response answer trace =
     (let trace = trace @ [Print (''Checking: '' @ dname)];
          (r, trace) = check_rdap dname response trace
      in case r of
           Inl e \<Rightarrow> (Inl e, trace)
         | Inr st \<Rightarrow>
             let (r, trace) =
                   (if st = None
                    then check_dns dname answer
                           (trace @ [Print (''  RDAP unclear, trying DNS for '' @ dname)])
                    else (Inr st, trace))
             in case r of
                  Inl e \<Rightarrow> (Inl e, trace)
                | Inr st \<Rightarrow>
                    let st = (case st of None \<Rightarrow> STATUS_POSSIBLE_AVAILABLE | Some s \<Rightarrow> s);
                        trace = trace @ [Print (''  '' @ dname @ '': '' @ st), Sleep DELAY_MS]
                    in (Inr \<lparr>domain = dname, status = st\<rparr>, trace))"

subsection \<open>group\_by\_base and filter\_interesting\_groups\<close>

text \<open>A Python \<open>dict\<close> keeps its keys in the order of their first insertion: a list of
  items with one item per key. \<open>d[k] = v\<close> replaces the value of a key that is there and
  adds a new item at the end otherwise; \<open>d[k].append(x)\<close> extends the list stored at a
  key that is there.\<close>

type_synonym 'v dict = "(string \<times> 'v) list"

definition dict_keys :: "'v dict \<Rightarrow> string set" where
  "dict_keys d = fst ` set d"

fun dict_set :: "'v dict \<Rightarrow> string \<Rightarrow> 'v \<Rightarrow> 'v dict" where
  "dict_set [] k v = [(k, v)]"
| "dict_set ((k', v') # d) k v = (if k' = k then (k, v) # d else (k', v') # dict_set d k v)"

definition dict_append :: "'a list dict \<Rightarrow> string \<Rightarrow> 'a \<Rightarrow> 'a list dict" where
  "dict_append d k x = map (\<lambda>(k', xs). if k' = k then (k', xs @ [x]) else (k', xs)) d"

text \<open>The body of the loop of \<open>group_by_base\<close>. The key is in \<open>grouped\<close> when the
  append runs, so the append cannot raise \<open>KeyError\<close>.\<close>

definition group_step :: "result \<Rightarrow> result list dict \<Rightarrow> result list dict" where
  "group_step r grouped =
     (let b = base r;
          grouped = (if b \<notin> dict_keys grouped then dict_set grouped b [] else grouped)
      in dict_append grouped b r)"

definition group_by_base :: "result list \<Rightarrow> result list dict" where
  "group_by_base results = fold group_step results []"

definition filter_step :: "string \<times> result list \<Rightarrow> result list dict \<Rightarrow> result list dict" where
  "filter_step item interesting =
     (let b = fst item;
          results = snd item;
          has_non_registered = (\<exists>r \<in> set results. status r \<noteq> STATUS_REGISTERED)
      in if has_non_registered then dict_set interesting b results else interesting)"

definition filter_interesting_groups :: "result list dict \<Rightarrow> result list dict" where
  "filter_interesting_groups grouped = fold filter_step grouped []"

subsection \<open>The start of main\<close>

text \<open>Which way \<open>main\<close> goes after \<open>keywords = get_todays_batch(200)\<close>: it prints
  ``No keywords to process'' and returns, or it goes on to check the domains of the
  batch.\<close>

datatype main_branch = NoKeywordsToProcess | CheckDomains "string list"

definition main_keywords :: "string list \<Rightarrow> int \<Rightarrow> exn + main_branch" where
  "main_keywords all_keywords day_of_month =
     (case get_todays_batch all_keywords day_of_month 200 of
        Inl e \<Rightarrow> Inl e
      | Inr keywords \<Rightarrow>
          if length keywords = 0 then Inr NoKeywordsToProcess
          else Inr (CheckDomains keywords))"

section \<open>The specification's words\<close>

text \<open>The number of batches as the specification writes it, the ceiling of
  \<open>N / batch_size\<close>, and the start index of the batch of a day.\<close>

definition spec_total_batches :: "nat \<Rightarrow> int \<Rightarrow> int" where
  "spec_total_batches N b = \<lceil>real N / real_of_int b\<rceil>"

definition spec_start :: "nat \<Rightarrow> int \<Rightarrow> int \<Rightarrow> nat" where
  "spec_start N d b = nat (((d - 1) mod spec_total_batches N b) * b)"

text \<open>The characters that make an input more than symbols: the letters and digits whose
  lowercase form holds a character from \<open>a\<close> to \<open>z\<close> or \<open>0\<close> to \<open>9\<close>. They are the ASCII
  letters and digits, U+0130 (capital I with dot above, lowercased to \<open>i\<close> and a
  combining dot) and U+212A (the Kelvin sign, a capital letter, lowercased to \<open>k\<close>).\<close>

definition spec_letter_or_digit :: "nat \<Rightarrow> bool" where
  "spec_letter_or_digit c \<longleftrightarrow>
     (of_char CHR ''A'' \<le> c \<and> c \<le> of_char CHR ''Z'') \<or>
     (of_char CHR ''a'' \<le> c \<and> c \<le> of_char CHR ''z'') \<or>
     (of_char CHR ''0'' \<le> c \<and> c \<le> of_char CHR ''9'') \<or>
     c = 0x130 \<or> c = 0x212A"

section \<open>What the program uses of str.lower()\<close>

text \<open>Two facts of Python's \<open>str.lower()\<close>: on ASCII text it moves the capitals \<open>A\<close> to
  \<open>Z\<close> up by 32 and leaves the rest; and a character from \<open>a\<close> to \<open>z\<close> or \<open>0\<close> to \<open>9\<close> in
  its result comes from a letter or digit of \<open>spec_letter_or_digit\<close> in its argument.\<close>

definition ascii_lower :: "nat \<Rightarrow> nat" where
  "ascii_lower c = (if of_char CHR ''A'' \<le> c \<and> c \<le> of_char CHR ''Z'' then c + 32 else c)"

definition str_lower_facts :: "(ustr \<Rightarrow> ustr) \<Rightarrow> bool" where
  "str_lower_facts str_lower \<longleftrightarrow>
     (\<forall>s. (\<forall>c \<in> set s. c < 128) \<longrightarrow> str_lower s = map ascii_lower s) \<and>
     (\<forall>s. \<forall>c \<in> set (str_lower s). az09_cp c \<longrightarrow> (\<exists>d \<in> set s. spec_letter_or_digit d))"

text \<open>A function with these two facts: \<open>str.lower()\<close> as it is on code points below
  U+0100, leaving all other code points as they are.\<close>

definition latin1_lower :: "ustr \<Rightarrow> ustr" where
  "latin1_lower s =
     map (\<lambda>c. if (of_char CHR ''A'' \<le> c \<and> c \<le> of_char CHR ''Z'') \<or>
                  (0xC0 \<le> c \<and> c \<le> 0xDE \<and> c \<noteq> 0xD7)
               then c + 32 else c) s"

text \<open>The elements of a list in the order in which each is first seen.\<close>

fun spec_first_seen :: "'a list \<Rightarrow> 'a list" where
  "spec_first_seen [] = []"
| "spec_first_seen (x # xs) = x # filter (\<lambda>y. y \<noteq> x) (spec_first_seen xs)"

section \<open>Batch selection\<close>

lemma total_batches_bounds:
  fixes n b :: int
  assumes "1 \<le> b"
  defines "t \<equiv> (n + b - 1) div b"
  shows "(t - 1) * b < n" and "n \<le> t * b"
proof -
  have eq: "t * b + (n + b - 1) mod b = n + b - 1"
    unfolding t_def by simp
  have lo: "0 \<le> (n + b - 1) mod b" and hi: "(n + b - 1) mod b < b"
    using assms(1) by simp_all
  show "(t - 1) * b < n"
    using eq lo by (simp add: algebra_simps)
  show "n \<le> t * b"
    using eq hi by (simp add: algebra_simps)
qed

lemma total_batches_ceiling:
  assumes "1 \<le> b"
  shows "(int N + b - 1) div b = spec_total_batches N b"
proof -
  define t where "t = (int N + b - 1) div b"
  have 1: "(t - 1) * b < int N" and 2: "int N \<le> t * b"
    using total_batches_bounds[OF assms, of "int N"] by (simp_all add: t_def)
  have b: "0 < real_of_int b" using assms by simp
  have "real_of_int ((t - 1) * b) < real_of_int (int N)"
    using 1 by (simp only: of_int_less_iff)
  then have lo: "real_of_int t - 1 < real N / real_of_int b"
    using b by (simp add: field_simps)
  have "real_of_int (int N) \<le> real_of_int (t * b)"
    using 2 by (simp only: of_int_le_iff)
  then have hi: "real N / real_of_int b \<le> real_of_int t"
    using b by (simp add: field_simps)
  have "\<lceil>real N / real_of_int b\<rceil> = t"
    using lo hi by (rule ceiling_unique)
  then show ?thesis by (simp add: spec_total_batches_def t_def)
qed

lemma py_slice_range:
  assumes "0 \<le> lo" "lo \<le> hi" "hi \<le> int (length xs)"
  shows "py_slice xs lo hi = map (\<lambda>i. xs ! i) [nat lo..<nat hi]"
proof -
  have "py_slice xs lo hi = take (nat (hi - lo)) (drop (nat lo) xs)"
    using assms by (simp add: py_slice_def Let_def min_def)
  also have "\<dots> = map (\<lambda>i. xs ! i) [nat lo..<nat hi]"
    using assms by (auto simp: list_eq_iff_nth_eq nat_diff_distrib)
  finally show ?thesis .
qed


lemma start_index_bounds:
  fixes n b d :: int
  assumes "0 < n" and "1 \<le> b"
  defines "t \<equiv> (n + b - 1) div b"
  shows "0 < t" and "0 \<le> ((d - 1) mod t) * b" and "((d - 1) mod t) * b < n"
proof -
  have t1: "(t - 1) * b < n" and t2: "n \<le> t * b"
    using total_batches_bounds[OF assms(2), of n] by (simp_all add: t_def)
  show tpos: "0 < t"
  proof (rule ccontr)
    assume "\<not> 0 < t"
    then have "t * b \<le> 0" using assms(2) by (simp add: mult_le_0_iff)
    with t2 assms(1) show False by simp
  qed
  have c0: "0 \<le> (d - 1) mod t" and c1: "(d - 1) mod t \<le> t - 1"
    using tpos by simp_all
  show "0 \<le> ((d - 1) mod t) * b" using c0 assms(2) by simp
  have "((d - 1) mod t) * b \<le> (t - 1) * b"
    using c1 assms(2) by (intro mult_right_mono) simp_all
  then show "((d - 1) mod t) * b < n" using t1 by simp
qed

lemma spec_start_less:
  assumes "all_keywords \<noteq> []" and "1 \<le> b"
  shows "spec_start (length all_keywords) d b < length all_keywords"
proof -
  have n: "0 < int (length all_keywords)" using assms(1) by simp
  have tt: "spec_total_batches (length all_keywords) b = (int (length all_keywords) + b - 1) div b"
    using total_batches_ceiling[OF assms(2), of "length all_keywords"] by simp
  show ?thesis
    using start_index_bounds(2,3)[OF n assms(2), of d]
    by (simp add: spec_start_def tt)
qed

lemma get_todays_batch_eq:
  assumes "all_keywords \<noteq> []" and "1 \<le> b"
  shows "get_todays_batch all_keywords d b =
    Inr (map (\<lambda>i. all_keywords ! i)
           [spec_start (length all_keywords) d b ..<
            min (spec_start (length all_keywords) d b + nat b) (length all_keywords)])"
proof -
  define n where "n = int (length all_keywords)"
  define t where "t = (n + b - 1) div b"
  define c where "c = (d - 1) mod t"
  have n: "0 < n" using assms(1) by (simp add: n_def)
  have tpos: "0 < t" and s0: "0 \<le> c * b" and s1: "c * b < n"
    using start_index_bounds(1)[OF n assms(2)] start_index_bounds(2,3)[OF n assms(2), of d]
    by (simp_all add: t_def c_def)
  have tt: "t = spec_total_batches (length all_keywords) b"
    using total_batches_ceiling[OF assms(2), of "length all_keywords"] by (simp add: t_def n_def)
  have st: "spec_start (length all_keywords) d b = nat (c * b)"
    by (simp add: spec_start_def c_def tt)
  have "get_todays_batch all_keywords d b = Inr (py_slice all_keywords (c * b) (min (c * b + b) n))"
    using tpos assms(2) by (simp add: get_todays_batch_def Let_def n_def t_def c_def)
  also have "py_slice all_keywords (c * b) (min (c * b + b) n) =
      map (\<lambda>i. all_keywords ! i) [nat (c * b)..<nat (min (c * b + b) n)]"
    using s0 s1 assms(2) by (intro py_slice_range) (simp_all add: n_def)
  also have "nat (min (c * b + b) n) = min (nat (c * b) + nat b) (length all_keywords)"
    using s0 assms(2) by (simp add: n_def min_def nat_add_distrib)
  finally show ?thesis by (simp add: st)
qed

text \<open>C6: for a non-empty corpus of length \<open>N\<close> and a batch size \<open>b\<close> of at least 1,
  the batch of day \<open>d\<close> is the elements at the indices from \<open>s\<close> up to, but excluding,
  \<open>min (s + b) N\<close>, in order, where \<open>s = ((d - 1) mod ceil(N / b)) * b\<close>. Two days
  whose \<open>d - 1\<close> agree modulo \<open>ceil(N / b)\<close> get the same batch. With 1000 keywords
  and batches of 200 there are 5 batches, and days 1, 6 and 31 all get the indices 0 to
  199. Neither the order of the corpus nor the range of the day is needed.\<close>

theorem get_todays_batch_slice:
  assumes "all_keywords \<noteq> []" and "1 \<le> b"
  shows "get_todays_batch all_keywords d b =
           Inr (map (\<lambda>i. all_keywords ! i)
             [spec_start (length all_keywords) d b ..<
              min (spec_start (length all_keywords) d b + nat b) (length all_keywords)])
         \<and> ((d1 - 1) mod spec_total_batches (length all_keywords) b =
              (d2 - 1) mod spec_total_batches (length all_keywords) b \<longrightarrow>
            get_todays_batch all_keywords d1 b = get_todays_batch all_keywords d2 b)
         \<and> (length ys = 1000 \<longrightarrow>
              spec_total_batches (length ys) 200 = 5 \<and>
              get_todays_batch ys 1 200 = Inr (map (\<lambda>i. ys ! i) [0..<200]) \<and>
              get_todays_batch ys 6 200 = Inr (map (\<lambda>i. ys ! i) [0..<200]) \<and>
              get_todays_batch ys 31 200 = Inr (map (\<lambda>i. ys ! i) [0..<200]))"
proof (intro conjI impI)
  show "get_todays_batch all_keywords d b =
           Inr (map (\<lambda>i. all_keywords ! i)
             [spec_start (length all_keywords) d b ..<
              min (spec_start (length all_keywords) d b + nat b) (length all_keywords)])"
    using assms by (rule get_todays_batch_eq)
next
  assume "(d1 - 1) mod spec_total_batches (length all_keywords) b =
          (d2 - 1) mod spec_total_batches (length all_keywords) b"
  then have "spec_start (length all_keywords) d1 b = spec_start (length all_keywords) d2 b"
    by (simp add: spec_start_def)
  then show "get_todays_batch all_keywords d1 b = get_todays_batch all_keywords d2 b"
    using assms by (simp add: get_todays_batch_eq)
next
  assume len: "length ys = 1000"
  then have ne: "ys \<noteq> []" by auto
  show tb: "spec_total_batches (length ys) 200 = 5"
    using total_batches_ceiling [of 200 "length ys"] len by simp
  have st: "spec_start 1000 1 200 = 0" "spec_start 1000 6 200 = 0" "spec_start 1000 31 200 = 0"
    using tb len by (simp_all add: spec_start_def)
  have e: "min (0 + nat 200) (1000::nat) = 200" by simp
  have pos: "(1::int) \<le> 200" by simp
  show "get_todays_batch ys 1 200 = Inr (map (\<lambda>i. ys ! i) [0..<200])"
    using get_todays_batch_eq [OF ne pos, of 1] unfolding len st e .
  show "get_todays_batch ys 6 200 = Inr (map (\<lambda>i. ys ! i) [0..<200])"
    using get_todays_batch_eq [OF ne pos, of 6] unfolding len st e .
  show "get_todays_batch ys 31 200 = Inr (map (\<lambda>i. ys ! i) [0..<200])"
    using get_todays_batch_eq [OF ne pos, of 31] unfolding len st e .
qed

theorem get_todays_batch_slice_witness:
  "get_todays_batch [''a'', ''b'', ''c'', ''d'', ''e''] 5 2 = Inr [''c'', ''d'']
   \<and> get_todays_batch [''a'', ''b'', ''c'', ''d'', ''e''] 1 2 =
      get_todays_batch [''a'', ''b'', ''c'', ''d'', ''e''] 4 2
   \<and> get_todays_batch (replicate 1000 ''kw'') 31 200 =
      Inr (map (\<lambda>i. replicate 1000 ''kw'' ! i) [0..<200])"
proof -
  let ?xs = "[''a'', ''b'', ''c'', ''d'', ''e'']"
  have tb: "spec_total_batches 5 2 = 3"
    using total_batches_ceiling [of 2 5] by simp
  have st: "spec_start 5 5 2 = 2"
    by (simp add: spec_start_def tb)
  have h: "?xs \<noteq> []" "(1::int) \<le> 2" by simp_all
  have len: "length ?xs = 5" by simp
  note inst = get_todays_batch_slice [OF h, of 5 1 4 "replicate 1000 ''kw''", unfolded len]
  have 1: "get_todays_batch ?xs 5 2 = Inr [''c'', ''d'']"
    using inst [THEN conjunct1] st by (simp add: upt_rec numeral_nat)
  have 2: "get_todays_batch ?xs 1 2 = get_todays_batch ?xs 4 2"
    using inst [THEN conjunct2, THEN conjunct1] tb by simp
  have 3: "get_todays_batch (replicate 1000 ''kw'') 31 200 =
      Inr (map (\<lambda>i. replicate 1000 ''kw'' ! i) [0..<200])"
    using inst [THEN conjunct2, THEN conjunct2] by (simp only: length_replicate simp_thms)
  from 1 2 3 show ?thesis by blast
qed

text \<open>C10: for a non-empty corpus and a batch size \<open>b\<close> of at least 1, the batch of any
  day is returned, and it has at least one and at most \<open>b\<close> elements; so \<open>main\<close>, which
  asks for batches of 200, goes on to check domains and does not take its ``No keywords
  to process'' branch.\<close>

theorem batch_nonempty:
  assumes "all_keywords \<noteq> []" and "1 \<le> b"
  shows "(\<exists>batch. get_todays_batch all_keywords d b = Inr batch \<and>
            1 \<le> length batch \<and> int (length batch) \<le> b) \<and>
         (\<exists>keywords. main_keywords all_keywords d = Inr (CheckDomains keywords))"
proof -
  have len: "1 \<le> length batch \<and> int (length batch) \<le> b'"
    if "1 \<le> b'" and
      "batch = map (\<lambda>i. all_keywords ! i)
           [spec_start (length all_keywords) d b' ..<
            min (spec_start (length all_keywords) d b' + nat b') (length all_keywords)]"
    for b' batch
    using spec_start_less [OF assms(1) that(1), of d] that by auto
  have 1: "\<exists>batch. get_todays_batch all_keywords d b = Inr batch \<and>
            1 \<le> length batch \<and> int (length batch) \<le> b"
    using get_todays_batch_eq [OF assms, of d] len [OF assms(2)] by blast
  have pos: "(1::int) \<le> 200" by simp
  obtain kw where kw: "get_todays_batch all_keywords d 200 = Inr kw" "1 \<le> length kw"
    using get_todays_batch_eq [OF assms(1) pos, of d] len [OF pos] by blast
  then have 2: "main_keywords all_keywords d = Inr (CheckDomains kw)"
    by (cases kw) (simp_all add: main_keywords_def)
  from 1 2 show ?thesis by blast
qed

theorem batch_nonempty_witness:
  "(\<exists>batch. get_todays_batch [''acme'', ''acmeai'', ''aiacme''] 31 2 = Inr batch \<and>
            1 \<le> length batch \<and> int (length batch) \<le> 2) \<and>
   (\<exists>keywords. main_keywords [''acme'', ''acmeai'', ''aiacme''] 31 = Inr (CheckDomains keywords))"
  using batch_nonempty [of "[''acme'', ''acmeai'', ''aiacme'']" 2 31] by simp

section \<open>Names and variations\<close>

lemma of_char_literals:
  "of_char CHR ''A'' = (65::nat)" "of_char CHR ''Z'' = (90::nat)"
  "of_char CHR ''a'' = (97::nat)" "of_char CHR ''z'' = (122::nat)"
  "of_char CHR ''0'' = (48::nat)" "of_char CHR ''9'' = (57::nat)"
  by simp_all

lemma latin1_lower_facts: "str_lower_facts latin1_lower"
  unfolding str_lower_facts_def
proof (intro conjI allI impI ballI)
  fix s :: ustr
  assume "\<forall>c \<in> set s. c < 128"
  then show "latin1_lower s = map ascii_lower s"
    by (auto simp: latin1_lower_def ascii_lower_def of_char_literals)
next
  fix s :: ustr and c
  assume "c \<in> set (latin1_lower s)" and "az09_cp c"
  then show "\<exists>d \<in> set s. spec_letter_or_digit d"
    by (auto simp: latin1_lower_def az09_cp_def spec_letter_or_digit_def of_char_literals
             split: if_splits)
qed

lemma normalize_name_unicode_charset:
  "c \<in> set (normalize_name_unicode str_lower name) \<Longrightarrow> az09_cp c"
  by (auto simp: normalize_name_unicode_def dest: in_set_takeD)

lemma normalize_name_unicode_symbols:
  assumes "str_lower_facts str_lower" and "\<forall>c \<in> set name. \<not> spec_letter_or_digit c"
  shows "normalize_name_unicode str_lower name = []"
proof -
  have "\<not> az09_cp c" if "c \<in> set (str_lower name)" for c
    using assms that unfolding str_lower_facts_def by blast
  then have "filter az09_cp (str_lower name) = []"
    by (simp add: filter_empty_conv)
  then show ?thesis by (simp add: normalize_name_unicode_def)
qed

lemma az09_of_char: "az09_cp (of_char c) = az09 c"
  by (simp add: az09_cp_def az09_def less_eq_char_def)

lemma ascii_lower_of_char:
  assumes "of_char c < (128::nat)"
  shows "ascii_lower (of_char c) = of_char (lower_char c)"
  using assms
  by (auto simp: ascii_lower_def lower_char_def less_eq_char_def of_char_literals)

lemma normalize_name_unicode_ascii:
  assumes "str_lower_facts str_lower" and "\<forall>c \<in> set s. of_char c < (128::nat)"
  shows "normalize_name_unicode str_lower (code_points s) = code_points (normalize_name s)"
proof -
  have "str_lower (code_points s) = map ascii_lower (code_points s)"
    using assms unfolding str_lower_facts_def code_points_def by simp
  also have "\<dots> = map of_char (lower s)"
    using assms(2) by (simp add: code_points_def lower_def ascii_lower_of_char)
  finally have "normalize_name_unicode str_lower (code_points s) =
      take 25 (filter az09_cp (map of_char (lower s)))"
    by (simp add: normalize_name_unicode_def)
  also have "\<dots> = map of_char (take 25 (filter az09 (lower s)))"
    by (simp add: filter_map comp_def az09_of_char take_map)
  finally show ?thesis
    by (simp add: code_points_def normalize_name_def)
qed


text \<open>C7: \<open>normalize_name\<close> is a function on all Python strings (total, and
  deterministic as every function is). Whatever \<open>str.lower()\<close> does, its result holds
  only characters from \<open>a\<close> to \<open>z\<close> and \<open>0\<close> to \<open>9\<close> and is at most 25 long, and
  \<open>is_valid_name\<close> holds exactly for lengths from 3 to 25. With the two facts of
  \<open>str.lower()\<close>: the empty input, and any input without a letter or digit of
  \<open>spec_letter_or_digit\<close> (so any input of symbols only), gives the empty string, and
  \<open>A!B\<close> is normalised to \<open>ab\<close>, which is not valid. Three Kelvin signs are not such an
  input: the Kelvin sign is a letter, and Python normalises them to \<open>kkk\<close>.\<close>

theorem normalize_name_properties:
  "(\<forall>c \<in> set (normalize_name_unicode str_lower name).
       (of_char CHR ''a'' \<le> c \<and> c \<le> of_char CHR ''z'') \<or>
       (of_char CHR ''0'' \<le> c \<and> c \<le> of_char CHR ''9''))
   \<and> length (normalize_name_unicode str_lower name) \<le> 25
   \<and> (is_valid_name n \<longleftrightarrow> 3 \<le> length n \<and> length n \<le> 25)
   \<and> (str_lower_facts str_lower \<longrightarrow>
        normalize_name_unicode str_lower [] = []
        \<and> ((\<forall>c \<in> set name. \<not> spec_letter_or_digit c) \<longrightarrow>
             normalize_name_unicode str_lower name = [])
        \<and> normalize_name_unicode str_lower (code_points ''A!B'') = code_points ''ab''
        \<and> \<not> is_valid_name (normalize_name_unicode str_lower (code_points ''A!B'')))"
proof -
  have 1: "\<forall>c \<in> set (normalize_name_unicode str_lower name).
       (of_char CHR ''a'' \<le> c \<and> c \<le> of_char CHR ''z'') \<or>
       (of_char CHR ''0'' \<le> c \<and> c \<le> of_char CHR ''9'')"
    using normalize_name_unicode_charset [of _ str_lower name]
    unfolding az09_cp_def by blast
  have 2: "length (normalize_name_unicode str_lower name) \<le> 25"
    by (simp add: normalize_name_unicode_def)
  have 3: "is_valid_name n \<longleftrightarrow> 3 \<le> length n \<and> length n \<le> 25"
    by (simp add: is_valid_name_def)
  have 4: "normalize_name_unicode str_lower [] = []
        \<and> ((\<forall>c \<in> set name. \<not> spec_letter_or_digit c) \<longrightarrow>
             normalize_name_unicode str_lower name = [])
        \<and> normalize_name_unicode str_lower (code_points ''A!B'') = code_points ''ab''
        \<and> \<not> is_valid_name (normalize_name_unicode str_lower (code_points ''A!B''))"
    if facts: "str_lower_facts str_lower"
  proof -
    have a: "normalize_name_unicode str_lower [] = []"
      using normalize_name_unicode_symbols [OF facts, of "[]"] by simp
    have b: "(\<forall>c \<in> set name. \<not> spec_letter_or_digit c) \<longrightarrow>
             normalize_name_unicode str_lower name = []"
      using normalize_name_unicode_symbols [OF facts] by blast
    have ascii: "\<forall>c \<in> set ''A!B''. of_char c < (128::nat)"
      by simp
    have n: "normalize_name ''A!B'' = ''ab''"
      by code_simp
    have c: "normalize_name_unicode str_lower (code_points ''A!B'') = code_points ''ab''"
      using normalize_name_unicode_ascii [OF facts ascii] by (simp only: n)
    have d: "\<not> is_valid_name (normalize_name_unicode str_lower (code_points ''A!B''))"
      unfolding c by (simp add: is_valid_name_def code_points_def)
    show ?thesis using a b c d by (intro conjI)
  qed
  show ?thesis using 1 2 3 4 by blast
qed

theorem normalize_name_properties_witness:
  "normalize_name_unicode latin1_lower [0x20AC, 0x21, 0x2192] = []
   \<and> normalize_name_unicode latin1_lower (code_points ''A!B'') = code_points ''ab''
   \<and> length (normalize_name_unicode latin1_lower (code_points ''Acme Corp.'')) \<le> 25"
proof -
  have h: "\<forall>c \<in> set [0x20AC, 0x21, 0x2192]. \<not> spec_letter_or_digit c"
    by (simp add: spec_letter_or_digit_def)
  note inst = normalize_name_properties [of latin1_lower]
  have 1: "normalize_name_unicode latin1_lower [0x20AC, 0x21, 0x2192] = []"
    using inst [of "[0x20AC, 0x21, 0x2192]"] latin1_lower_facts h by blast
  have 2: "normalize_name_unicode latin1_lower (code_points ''A!B'') = code_points ''ab''"
    using inst [of "[]"] latin1_lower_facts by blast
  have 3: "length (normalize_name_unicode latin1_lower (code_points ''Acme Corp.'')) \<le> 25"
    using inst [of "code_points ''Acme Corp.''"] by blast
  show ?thesis using 1 2 3 by (intro conjI)
qed

lemma fold_insert_if:
  "fold (\<lambda>a vs. if P a then insert (f a) vs else vs) as S = S \<union> {f a | a. a \<in> set as \<and> P a}"
  by (induction as arbitrary: S) auto

lemma generate_variations_eq:
  "generate_variations b =
     (if \<not> is_valid_name (normalize_name b) then {}
      else {normalize_name b}
        \<union> {normalize_name b @ a | a. a \<in> set AFFIXES \<and> length (normalize_name b @ a) \<le> 25}
        \<union> {a @ normalize_name b | a. a \<in> set AFFIXES \<and> length (a @ normalize_name b) \<le> 25})"
  unfolding generate_variations_def Let_def fold_insert_if by simp

lemma insert_order9:
  "insert i (insert h (insert g (insert f (insert e (insert d (insert c (insert b {a}))))))) =
   {a, b, c, d, e, f, g, h, i}"
  by blast

text \<open>C8: for a base that normalisation leaves as it is: if the base is not valid, there
  are no variations; otherwise the variations are the base, the base followed by each of
  \<open>ai\<close>, \<open>labs\<close>, \<open>cloud\<close>, \<open>tech\<close> where that is at most 25 long, and each of the four
  followed by the base where that is at most 25 long. \<open>acme\<close> has exactly the nine
  variations listed, and the empty string has none.\<close>

theorem generate_variations_set:
  assumes "normalize_name b = b"
  shows "(\<not> is_valid_name b \<longrightarrow> generate_variations b = {})
    \<and> (is_valid_name b \<longrightarrow>
         generate_variations b =
           {b} \<union> {b @ a | a. a \<in> {''ai'', ''labs'', ''cloud'', ''tech''} \<and> length (b @ a) \<le> 25}
               \<union> {a @ b | a. a \<in> {''ai'', ''labs'', ''cloud'', ''tech''} \<and> length (a @ b) \<le> 25})
    \<and> generate_variations ''acme'' =
         {''acme'', ''acmeai'', ''acmelabs'', ''acmecloud'', ''acmetech'',
          ''aiacme'', ''labsacme'', ''cloudacme'', ''techacme''}
    \<and> card (generate_variations ''acme'') = 9
    \<and> generate_variations [] = {}"
proof -
  have af: "set AFFIXES = {''ai'', ''labs'', ''cloud'', ''tech''}"
    by (simp add: AFFIXES_def)
  have 1: "\<not> is_valid_name b \<longrightarrow> generate_variations b = {}"
    by (simp add: generate_variations_eq assms)
  have 2: "is_valid_name b \<longrightarrow>
         generate_variations b =
           {b} \<union> {b @ a | a. a \<in> {''ai'', ''labs'', ''cloud'', ''tech''} \<and> length (b @ a) \<le> 25}
               \<union> {a @ b | a. a \<in> {''ai'', ''labs'', ''cloud'', ''tech''} \<and> length (a @ b) \<le> 25}"
    by (simp only: generate_variations_eq assms af) simp
  have n: "normalize_name ''acme'' = ''acme''" by code_simp
  have v: "is_valid_name ''acme''" by (simp add: is_valid_name_def)
  have e: "generate_variations ''acme'' =
         insert ''techacme'' (insert ''cloudacme'' (insert ''labsacme'' (insert ''aiacme''
           (insert ''acmetech'' (insert ''acmecloud'' (insert ''acmelabs'' (insert ''acmeai''
             {''acme''})))))))"
    by (simp add: generate_variations_def n v AFFIXES_def Let_def)
  have 3: "generate_variations ''acme'' =
         {''acme'', ''acmeai'', ''acmelabs'', ''acmecloud'', ''acmetech'',
          ''aiacme'', ''labsacme'', ''cloudacme'', ''techacme''}"
    unfolding e by (rule insert_order9)
  have 4: "card (generate_variations ''acme'') = 9"
    unfolding e by simp
  have 5: "generate_variations [] = {}"
    by (simp add: generate_variations_eq normalize_name_def lower_def is_valid_name_def)
  show ?thesis
    using 1 2 3 4 5 by (intro conjI)
qed

theorem generate_variations_set_witness:
  "''ibmcloud'' \<in> generate_variations ''ibm'' \<and> generate_variations ''ab'' = {}"
proof -
  have n1: "normalize_name ''ibm'' = ''ibm''" by code_simp
  have n2: "normalize_name ''ab'' = ''ab''" by code_simp
  have v1: "is_valid_name ''ibm''" by (simp add: is_valid_name_def)
  have v2: "\<not> is_valid_name ''ab''" by (simp add: is_valid_name_def)
  have "generate_variations ''ibm'' =
           {''ibm''} \<union> {''ibm'' @ a | a. a \<in> {''ai'', ''labs'', ''cloud'', ''tech''} \<and> length (''ibm'' @ a) \<le> 25}
               \<union> {a @ ''ibm'' | a. a \<in> {''ai'', ''labs'', ''cloud'', ''tech''} \<and> length (a @ ''ibm'') \<le> 25}"
    using generate_variations_set [OF n1, THEN conjunct2, THEN conjunct1] v1 by (rule mp)
  moreover have "''ibmcloud'' \<in> {''ibm'' @ a | a. a \<in> {''ai'', ''labs'', ''cloud'', ''tech''} \<and> length (''ibm'' @ a) \<le> 25}"
    by (rule CollectI, rule exI [of _ "''cloud''"]) simp
  ultimately have 1: "''ibmcloud'' \<in> generate_variations ''ibm''"
    by (simp only: Un_iff simp_thms)
  have 2: "generate_variations ''ab'' = {}"
    using generate_variations_set [OF n2, THEN conjunct1] v2 by (rule mp)
  show ?thesis using 1 2 by (intro conjI)
qed

section \<open>The corpus of a run\<close>







section \<open>The availability check\<close>

lemma status_constants_distinct:
  "STATUS_AVAILABLE \<noteq> STATUS_REGISTERED"
  "STATUS_AVAILABLE \<noteq> STATUS_POSSIBLE_AVAILABLE"
  "STATUS_REGISTERED \<noteq> STATUS_POSSIBLE_AVAILABLE"
  by (simp_all add: STATUS_AVAILABLE_def STATUS_REGISTERED_def STATUS_POSSIBLE_AVAILABLE_def)

lemma check_rdap_try_range:
  "check_rdap_try response = Inr (Some st) \<Longrightarrow> st = STATUS_AVAILABLE \<or> st = STATUS_REGISTERED"
  by (auto simp: check_rdap_try_def exn_bind_def
           split: http_result.splits sum.splits if_splits)

lemma check_rdap_fst:
  "fst (check_rdap dname response trace) =
     (case check_rdap_try response of Inl e \<Rightarrow> Inr None | Inr r \<Rightarrow> Inr r)"
  by (simp add: check_rdap_def)

lemma check_rdap_snd:
  "snd (check_rdap dname response trace) = trace @ [HttpGet (rdap_url dname)]"
  by (simp add: check_rdap_def)

lemma check_rdap_cases:
  obtains "fst (check_rdap dname response trace) = Inr None"
  | "fst (check_rdap dname response trace) = Inr (Some STATUS_AVAILABLE)"
  | "fst (check_rdap dname response trace) = Inr (Some STATUS_REGISTERED)"
proof (cases "check_rdap_try response")
  case (Inl e)
  then show ?thesis using that(1) by (simp add: check_rdap_fst)
next
  case (Inr r)
  show ?thesis
  proof (cases r)
    case None
    with Inr show ?thesis using that(1) by (simp add: check_rdap_fst)
  next
    case (Some st)
    with Inr check_rdap_try_range [of response st] show ?thesis
      using that(2,3) by (auto simp: check_rdap_fst)
  qed
qed

lemma check_dns_fst:
  "fst (check_dns dname answer trace) =
     (case answer of
        Answer nameservers \<Rightarrow>
          Inr (Some (if nameservers \<noteq> [] then STATUS_REGISTERED else STATUS_AVAILABLE))
      | ResolveRaises e \<Rightarrow>
          if e = NXDOMAIN \<or> e = NoAnswer then Inr (Some STATUS_AVAILABLE) else Inr None)"
  by (simp add: check_dns_def check_dns_try_def split: dns_result.splits)

lemma check_dns_snd:
  "snd (check_dns dname answer trace) = trace @ [DnsResolve dname]"
  by (simp add: check_dns_def)

text \<open>What \<open>check_domain\<close> returns when the registry stage is conclusive, and when it is
  not.\<close>

lemma check_domain_conclusive:
  assumes "fst (check_rdap dname response (trace @ [Print (''Checking: '' @ dname)])) = Inr (Some st)"
  shows "check_domain dname response answer trace =
    (Inr \<lparr>domain = dname, status = st\<rparr>,
     trace @ [Print (''Checking: '' @ dname), HttpGet (rdap_url dname),
              Print (''  '' @ dname @ '': '' @ st), Sleep DELAY_MS])"
  using assms
  by (simp add: check_domain_def Let_def split_beta check_rdap_snd)

lemma check_domain_fallback:
  assumes "fst (check_rdap dname response (trace @ [Print (''Checking: '' @ dname)])) = Inr None"
  shows "fst (check_domain dname response answer trace) =
    Inr \<lparr>domain = dname,
         status = (case answer of
            Answer nameservers \<Rightarrow>
              if nameservers \<noteq> [] then STATUS_REGISTERED else STATUS_AVAILABLE
          | ResolveRaises e \<Rightarrow>
              if e = NXDOMAIN \<or> e = NoAnswer then STATUS_AVAILABLE
              else STATUS_POSSIBLE_AVAILABLE)\<rparr>"
  using assms
  by (simp add: check_domain_def Let_def split_beta check_dns_fst split: dns_result.splits)

text \<open>C1: whatever the domain and whatever the two network calls do (any status code,
  any body or none that parses, any exception from the request or from the resolver),
  \<open>check_domain\<close> returns a result for the domain, never an exception, and the status
  of the result is one of the three status constants, which differ from each other.\<close>

theorem check_domain_total:
  "(\<exists>st trace'. check_domain dname response answer trace =
        (Inr \<lparr>domain = dname, status = st\<rparr>, trace') \<and>
      st \<in> {STATUS_AVAILABLE, STATUS_REGISTERED, STATUS_POSSIBLE_AVAILABLE})
   \<and> distinct [STATUS_AVAILABLE, STATUS_REGISTERED, STATUS_POSSIBLE_AVAILABLE]"
proof -
  let ?t = "trace @ [Print (''Checking: '' @ dname)]"
  have "\<exists>st. fst (check_domain dname response answer trace) = Inr \<lparr>domain = dname, status = st\<rparr> \<and>
      st \<in> {STATUS_AVAILABLE, STATUS_REGISTERED, STATUS_POSSIBLE_AVAILABLE}"
  proof (cases dname response ?t rule: check_rdap_cases)
    case 1
    show ?thesis
      unfolding check_domain_fallback [OF 1]
      by (cases answer) auto
  next
    case 2
    show ?thesis
      unfolding check_domain_conclusive [OF 2] by simp
  next
    case 3
    show ?thesis
      unfolding check_domain_conclusive [OF 3] by simp
  qed
  then have "\<exists>st trace'. check_domain dname response answer trace =
        (Inr \<lparr>domain = dname, status = st\<rparr>, trace') \<and>
      st \<in> {STATUS_AVAILABLE, STATUS_REGISTERED, STATUS_POSSIBLE_AVAILABLE}"
    by (metis prod.collapse)
  moreover have "distinct [STATUS_AVAILABLE, STATUS_REGISTERED, STATUS_POSSIBLE_AVAILABLE]"
    using status_constants_distinct by simp
  ultimately show ?thesis by (rule conjI)
qed

text \<open>C3: when the registry stage is inconclusive the DNS answer decides: one or more
  NS records give \<open>REGISTERED\<close>; \<open>NXDOMAIN\<close> and \<open>NoAnswer\<close> give \<open>AVAILABLE\<close>; any other
  exception of the resolver gives \<open>POSSIBLE_AVAILABLE\<close>. A registry timeout followed by
  \<open>NXDOMAIN\<close> gives \<open>AVAILABLE\<close>, and followed by a DNS timeout
  \<open>POSSIBLE_AVAILABLE\<close>.\<close>

theorem dns_fallback_decides:
  assumes "fst (check_rdap dname response trace) = Inr None"
  shows "(nameservers \<noteq> [] \<longrightarrow>
            fst (check_domain dname response (Answer nameservers) trace) =
              Inr \<lparr>domain = dname, status = STATUS_REGISTERED\<rparr>)
       \<and> (e = NXDOMAIN \<or> e = NoAnswer \<longrightarrow>
            fst (check_domain dname response (ResolveRaises e) trace) =
              Inr \<lparr>domain = dname, status = STATUS_AVAILABLE\<rparr>)
       \<and> (e \<noteq> NXDOMAIN \<and> e \<noteq> NoAnswer \<longrightarrow>
            fst (check_domain dname response (ResolveRaises e) trace) =
              Inr \<lparr>domain = dname, status = STATUS_POSSIBLE_AVAILABLE\<rparr>)
       \<and> fst (check_domain dname (RequestRaises RequestsTimeout) (ResolveRaises NXDOMAIN) trace) =
              Inr \<lparr>domain = dname, status = STATUS_AVAILABLE\<rparr>
       \<and> fst (check_domain dname (RequestRaises RequestsTimeout) (ResolveRaises LifetimeTimeout) trace) =
              Inr \<lparr>domain = dname, status = STATUS_POSSIBLE_AVAILABLE\<rparr>"
proof -
  have unclear: "fst (check_rdap dname response (trace @ [Print (''Checking: '' @ dname)])) = Inr None"
    using assms by (simp add: check_rdap_fst)
  have timeout: "fst (check_rdap dname (RequestRaises RequestsTimeout)
      (trace @ [Print (''Checking: '' @ dname)])) = Inr None"
    by (simp add: check_rdap_fst check_rdap_try_def)
  show ?thesis
    by (simp add: check_domain_fallback [OF unclear] check_domain_fallback [OF timeout])
qed

theorem dns_fallback_decides_witness:
  "fst (check_domain ''acme.ai'' (Response 503 (Inl JSONDecodeError))
          (Answer [''ns1.example.net.'']) []) =
     Inr \<lparr>domain = ''acme.ai'', status = STATUS_REGISTERED\<rparr>
   \<and> fst (check_domain ''acme.ai'' (Response 503 (Inl JSONDecodeError))
          (ResolveRaises NoAnswer) []) =
     Inr \<lparr>domain = ''acme.ai'', status = STATUS_AVAILABLE\<rparr>"
proof -
  have h: "fst (check_rdap ''acme.ai'' (Response 503 (Inl JSONDecodeError)) []) = Inr None"
    by (simp add: check_rdap_fst check_rdap_try_def)
  show ?thesis
    using dns_fallback_decides [OF h, of "[''ns1.example.net.'']" NoAnswer] by simp
qed

text \<open>C4: a registry answer of 404 gives \<open>AVAILABLE\<close> whatever the DNS would say, and a
  registry answer of 200 whose status list is \<open>["active"]\<close> gives \<open>REGISTERED\<close>; in both
  cases the check only prints, sends the one registry request and sleeps: the resolver is
  not called.\<close>

theorem registry_short_circuits:
  "check_domain dname (Response 404 body) answer trace =
     (Inr \<lparr>domain = dname, status = STATUS_AVAILABLE\<rparr>,
      trace @ [Print (''Checking: '' @ dname), HttpGet (rdap_url dname),
               Print (''  '' @ dname @ '': '' @ STATUS_AVAILABLE), Sleep DELAY_MS])
   \<and> (map_of items ''status'' = Some (JArr [JStr ''active'']) \<longrightarrow>
        check_domain dname (Response 200 (Inr (JObj items))) answer trace =
          (Inr \<lparr>domain = dname, status = STATUS_REGISTERED\<rparr>,
           trace @ [Print (''Checking: '' @ dname), HttpGet (rdap_url dname),
                    Print (''  '' @ dname @ '': '' @ STATUS_REGISTERED), Sleep DELAY_MS])
        \<and> DnsResolve dname \<notin> set (snd (check_domain dname (Response 200 (Inr (JObj items))) answer [])))"
proof -
  let ?t = "trace @ [Print (''Checking: '' @ dname)]"
  have a: "fst (check_rdap dname (Response 404 body) t) = Inr (Some STATUS_AVAILABLE)" for t
    by (simp add: check_rdap_fst check_rdap_try_def)
  have act: "sublist ''active'' (lower ''active'')"
    by code_simp
  have r: "fst (check_rdap dname (Response 200 (Inr (JObj items))) t) = Inr (Some STATUS_REGISTERED)"
    if "map_of items ''status'' = Some (JArr [JStr ''active''])" for t
  proof -
    have "''status'' \<in> fst ` set items"
      using that by (metis domI dom_map_of_conv_image_fst)
    then have "registered_by_status (JObj items) = Inr True"
      using that act by (simp add: registered_by_status_def str_in_def subscript_def exn_bind_def)
    then show ?thesis
      by (simp add: check_rdap_fst check_rdap_try_def exn_bind_def)
  qed
  show ?thesis
    using check_domain_conclusive [OF a] check_domain_conclusive [OF r]
    by simp
qed

theorem registry_short_circuits_witness:
  "check_domain ''acme.com''
       (Response 200 (Inr (JObj [(''objectClassName'', JStr ''domain''),
                                 (''status'', JArr [JStr ''active''])])))
       (ResolveRaises LifetimeTimeout) [] =
     (Inr \<lparr>domain = ''acme.com'', status = STATUS_REGISTERED\<rparr>,
      [Print ''Checking: acme.com'', HttpGet (rdap_url ''acme.com''),
       Print (''  acme.com: '' @ STATUS_REGISTERED), Sleep DELAY_MS])"
proof -
  have h: "map_of [(''objectClassName'', JStr ''domain''), (''status'', JArr [JStr ''active''])]
      ''status'' = Some (JArr [JStr ''active''])"
    by simp
  show ?thesis
    using registry_short_circuits [of "''acme.com''" _ "ResolveRaises LifetimeTimeout" "[]"
        "[(''objectClassName'', JStr ''domain''), (''status'', JArr [JStr ''active''])]"] h
    by simp
qed

subsection \<open>The registry stage\<close>

lemma has_active_strings:
  assumes "\<forall>j \<in> set entries. \<exists>s. j = JStr s"
  shows "has_active entries =
    Inr (\<exists>s. JStr s \<in> set entries \<and> (sublist ''active'' (lower s) \<or> sublist ''ok'' (lower s)))"
  using assms
proof (induction entries)
  case Nil
  show ?case by simp
next
  case (Cons j rest)
  then obtain s where j: "j = JStr s" by auto
  have "has_active rest =
    Inr (\<exists>s. JStr s \<in> set rest \<and> (sublist ''active'' (lower s) \<or> sublist ''ok'' (lower s)))"
    using Cons by simp
  then show ?case
    unfolding j by auto
qed

lemma registered_by_status_object:
  assumes "\<forall>entries. map_of items ''status'' = Some (JArr entries) \<longrightarrow>
             (\<forall>j \<in> set entries. \<exists>s. j = JStr s)"
  shows "registered_by_status (JObj items) =
    Inr (\<exists>entries s. map_of items ''status'' = Some (JArr entries) \<and> JStr s \<in> set entries \<and>
           (sublist ''active'' (lower s) \<or> sublist ''ok'' (lower s)))"
proof (cases "map_of items ''status''")
  case None
  then have "''status'' \<notin> fst ` set items"
    by (simp add: map_of_eq_None_iff)
  with None show ?thesis
    by (simp add: registered_by_status_def str_in_def exn_bind_def)
next
  case (Some v)
  then have k: "''status'' \<in> fst ` set items"
    by (metis domI dom_map_of_conv_image_fst)
  show ?thesis
  proof (cases "\<exists>entries. v = JArr entries")
    case True
    then obtain entries where v: "v = JArr entries" by blast
    have "has_active entries =
      Inr (\<exists>s. JStr s \<in> set entries \<and> (sublist ''active'' (lower s) \<or> sublist ''ok'' (lower s)))"
      using assms Some v by (intro has_active_strings) simp
    then show ?thesis
      using Some v k
      by (simp add: registered_by_status_def str_in_def subscript_def exn_bind_def)
  next
    case False
    then show ?thesis
      using Some k
      by (cases v) (simp_all add: registered_by_status_def str_in_def subscript_def exn_bind_def)
  qed
qed

lemma registered_by_records_object:
  "registered_by_records (JObj items) =
     Inr (''entities'' \<in> fst ` set items \<or> ''nameservers'' \<in> fst ` set items)"
  by (simp add: registered_by_records_def str_in_def exn_bind_def)

text \<open>The claim C2 as it is written fails: the code looks for \<open>active\<close> and \<open>ok\<close> inside
  each lowercased entry, so the status list \<open>["inactive"]\<close>, which holds neither token,
  gives \<open>REGISTERED\<close> with no nameserver or entity record in the answer.\<close>

theorem check_rdap_inactive_registered:
  "fst (check_rdap ''acme.com''
          (Response 200 (Inr (JObj [(''status'', JArr [JStr ''inactive''])]))) []) =
     Inr (Some STATUS_REGISTERED)
   \<and> lower ''inactive'' \<noteq> ''active'' \<and> lower ''inactive'' \<noteq> ''ok''"
  by code_simp

text \<open>C2, amended: 404 gives \<open>AVAILABLE\<close>. A 200 answer whose body is a JSON object, with
  only strings in its status list if it has one, gives \<open>REGISTERED\<close> if and only if the
  status list has an entry that, lowercased, contains \<open>active\<close> or \<open>ok\<close> as a substring,
  or the object has the key \<open>entities\<close> or \<open>nameservers\<close>; otherwise the stage is
  inconclusive. Any other status code, a body that does not parse, and an exception of
  the request are inconclusive.\<close>

theorem check_rdap_classification:
  "fst (check_rdap dname (Response 404 body) trace) = Inr (Some STATUS_AVAILABLE)
   \<and> ((\<forall>entries. map_of items ''status'' = Some (JArr entries) \<longrightarrow>
           (\<forall>j \<in> set entries. \<exists>s. j = JStr s)) \<longrightarrow>
        fst (check_rdap dname (Response 200 (Inr (JObj items))) trace) =
          Inr (if (\<exists>entries s. map_of items ''status'' = Some (JArr entries) \<and>
                     JStr s \<in> set entries \<and>
                     (sublist ''active'' (lower s) \<or> sublist ''ok'' (lower s)))
                  \<or> ''entities'' \<in> fst ` set items \<or> ''nameservers'' \<in> fst ` set items
               then Some STATUS_REGISTERED else None))
   \<and> (code \<noteq> 404 \<and> code \<noteq> 200 \<longrightarrow>
        fst (check_rdap dname (Response code body) trace) = Inr None)
   \<and> fst (check_rdap dname (Response 200 (Inl e)) trace) = Inr None
   \<and> fst (check_rdap dname (RequestRaises e) trace) = Inr None"
proof -
  have 1: "fst (check_rdap dname (Response 404 body) trace) = Inr (Some STATUS_AVAILABLE)"
    by (simp add: check_rdap_fst check_rdap_try_def)
  have 2: "fst (check_rdap dname (Response 200 (Inr (JObj items))) trace) =
          Inr (if (\<exists>entries s. map_of items ''status'' = Some (JArr entries) \<and>
                     JStr s \<in> set entries \<and>
                     (sublist ''active'' (lower s) \<or> sublist ''ok'' (lower s)))
                  \<or> ''entities'' \<in> fst ` set items \<or> ''nameservers'' \<in> fst ` set items
               then Some STATUS_REGISTERED else None)"
    if "\<forall>entries. map_of items ''status'' = Some (JArr entries) \<longrightarrow>
           (\<forall>j \<in> set entries. \<exists>s. j = JStr s)"
    by (simp add: check_rdap_fst check_rdap_try_def exn_bind_def
          registered_by_status_object [OF that] registered_by_records_object)
  have 3: "code \<noteq> 404 \<and> code \<noteq> 200 \<longrightarrow>
        fst (check_rdap dname (Response code body) trace) = Inr None"
    by (simp add: check_rdap_fst check_rdap_try_def)
  have 4: "fst (check_rdap dname (Response 200 (Inl e)) trace) = Inr None"
    by (simp add: check_rdap_fst check_rdap_try_def exn_bind_def)
  have 5: "fst (check_rdap dname (RequestRaises e) trace) = Inr None"
    by (simp add: check_rdap_fst check_rdap_try_def)
  show ?thesis
    using 1 2 3 4 5 by blast
qed


theorem check_rdap_classification_witness:
  "fst (check_rdap ''acme.com''
          (Response 200 (Inr (JObj [(''status'', JArr [JStr ''locked''])]))) []) = Inr None
   \<and> fst (check_rdap ''acme.com''
          (Response 200 (Inr (JObj [(''status'', JArr [JStr ''locked'']),
                                    (''nameservers'', JArr [])]))) []) =
       Inr (Some STATUS_REGISTERED)
   \<and> fst (check_rdap ''acme.com'' (Response 500 (Inl JSONDecodeError)) []) = Inr None"
proof -
  have l: "\<not> sublist ''active'' (lower ''locked'')" "\<not> sublist ''ok'' (lower ''locked'')"
    by code_simp+
  have 1: "fst (check_rdap ''acme.com''
          (Response 200 (Inr (JObj [(''status'', JArr [JStr ''locked''])]))) []) = Inr None"
    using check_rdap_classification
      [of "''acme.com''" _ "[]" "[(''status'', JArr [JStr ''locked''])]"] l
    by simp
  have 2: "fst (check_rdap ''acme.com''
          (Response 200 (Inr (JObj [(''status'', JArr [JStr ''locked'']),
                                    (''nameservers'', JArr [])]))) []) =
       Inr (Some STATUS_REGISTERED)"
    using check_rdap_classification
      [of "''acme.com''" _ "[]" "[(''status'', JArr [JStr ''locked'']), (''nameservers'', JArr [])]"]
    by simp
  have 3: "fst (check_rdap ''acme.com'' (Response 500 (Inl JSONDecodeError)) []) = Inr None"
    using check_rdap_classification
      [of "''acme.com''" "Inl JSONDecodeError" "[]" _ 500]
    by simp
  show ?thesis using 1 2 3 by (intro conjI)
qed

section \<open>Grouping the results\<close>

lemma set_first_seen: "set (spec_first_seen xs) = set xs"
  by (induction xs) auto

lemma first_seen_filter: "filter P (spec_first_seen xs) = spec_first_seen (filter P xs)"
proof (induction xs)
  case Nil
  show ?case by simp
next
  case (Cons x xs)
  show ?case
  proof (cases "P x")
    case True
    have "filter P (filter (\<lambda>y. y \<noteq> x) (spec_first_seen xs)) =
          filter (\<lambda>y. y \<noteq> x) (filter P (spec_first_seen xs))"
      by (simp add: conj_commute)
    with True Cons show ?thesis by simp
  next
    case False
    have "filter P (filter (\<lambda>y. y \<noteq> x) (spec_first_seen xs)) = filter P (spec_first_seen xs)"
      using False by (auto intro: filter_cong)
    with False Cons show ?thesis by simp
  qed
qed

lemma dict_set_absent: "k \<notin> dict_keys d \<Longrightarrow> dict_set d k v = d @ [(k, v)]"
  by (induction d) (auto simp: dict_keys_def)

lemma dict_append_absent: "k \<notin> dict_keys d \<Longrightarrow> dict_append d k x = d"
  by (induction d) (auto simp: dict_keys_def dict_append_def)

lemma dict_keys_append: "dict_keys (dict_append d k x) = dict_keys d"
  by (induction d) (auto simp: dict_keys_def dict_append_def)

lemma group_step_present:
  "base r \<in> dict_keys g \<Longrightarrow> group_step r g = dict_append g (base r) r"
  by (simp add: group_step_def)

lemma group_step_absent:
  assumes "base r \<notin> dict_keys g"
  shows "group_step r g = g @ [(base r, [r])]"
proof -
  have "group_step r g = dict_append (g @ [(base r, [])]) (base r) r"
    using assms by (simp add: group_step_def Let_def dict_set_absent)
  also have "\<dots> = dict_append g (base r) r @ [(base r, [r])]"
    by (simp add: dict_append_def)
  finally show ?thesis
    using assms by (simp add: dict_append_absent)
qed

lemma fold_group_step:
  "fold group_step rs g =
     map (\<lambda>(k, vs). (k, vs @ filter (\<lambda>r. base r = k) rs)) g @
     map (\<lambda>b. (b, filter (\<lambda>r. base r = b) rs))
       (spec_first_seen (filter (\<lambda>b. b \<notin> dict_keys g) (map base rs)))"
proof (induction rs arbitrary: g)
  case Nil
  show ?case by simp
next
  case (Cons r rs)
  let ?b = "base r"
  show ?case
  proof (cases "?b \<in> dict_keys g")
    case True
    let ?g = "dict_append g ?b r"
    have old: "map (\<lambda>(k, vs). (k, vs @ filter (\<lambda>r. base r = k) rs)) ?g =
               map (\<lambda>(k, vs). (k, vs @ filter (\<lambda>r. base r = k) (r # rs))) g"
      by (auto simp: dict_append_def)
    have new: "map (\<lambda>b. (b, filter (\<lambda>r. base r = b) rs))
                 (spec_first_seen (filter (\<lambda>b. b \<notin> dict_keys g) (map base rs))) =
               map (\<lambda>b. (b, filter (\<lambda>r. base r = b) (r # rs)))
                 (spec_first_seen (filter (\<lambda>b. b \<notin> dict_keys g) (map base rs)))"
      using True by (auto simp: set_first_seen)
    have "fold group_step (r # rs) g = fold group_step rs ?g"
      using True by (simp add: group_step_present)
    also have "\<dots> = map (\<lambda>(k, vs). (k, vs @ filter (\<lambda>r. base r = k) rs)) ?g @
        map (\<lambda>b. (b, filter (\<lambda>r. base r = b) rs))
          (spec_first_seen (filter (\<lambda>b. b \<notin> dict_keys g) (map base rs)))"
      by (simp add: Cons.IH dict_keys_append)
    finally show ?thesis
      using True by (simp only: old new) simp
  next
    case False
    let ?g = "g @ [(?b, [r])]"
    have keys: "dict_keys ?g = insert ?b (dict_keys g)"
      by (simp add: dict_keys_def)
    have old: "map (\<lambda>(k, vs). (k, vs @ filter (\<lambda>r. base r = k) rs)) g =
               map (\<lambda>(k, vs). (k, vs @ filter (\<lambda>r. base r = k) (r # rs))) g"
      using False by (force simp: dict_keys_def)
    have flt: "filter (\<lambda>b. b \<notin> dict_keys ?g) (map base rs) =
               filter (\<lambda>y. y \<noteq> ?b) (filter (\<lambda>b. b \<notin> dict_keys g) (map base rs))"
      by (auto simp: keys intro: filter_cong)
    have new: "map (\<lambda>b. (b, filter (\<lambda>r. base r = b) rs))
                 (spec_first_seen (filter (\<lambda>b. b \<notin> dict_keys ?g) (map base rs))) =
               map (\<lambda>b. (b, filter (\<lambda>r. base r = b) (r # rs)))
                 (filter (\<lambda>y. y \<noteq> ?b)
                    (spec_first_seen (filter (\<lambda>b. b \<notin> dict_keys g) (map base rs))))"
      unfolding flt first_seen_filter [symmetric] by auto
    have "fold group_step (r # rs) g = fold group_step rs ?g"
      using False by (simp add: group_step_absent)
    also have "\<dots> = map (\<lambda>(k, vs). (k, vs @ filter (\<lambda>r. base r = k) rs)) ?g @
        map (\<lambda>b. (b, filter (\<lambda>r. base r = b) rs))
          (spec_first_seen (filter (\<lambda>b. b \<notin> dict_keys ?g) (map base rs)))"
      by (rule Cons.IH)
    also have "\<dots> = map (\<lambda>(k, vs). (k, vs @ filter (\<lambda>r. base r = k) (r # rs))) g @
        (?b, r # filter (\<lambda>r'. base r' = ?b) rs) #
        map (\<lambda>b. (b, filter (\<lambda>r. base r = b) (r # rs)))
          (filter (\<lambda>y. y \<noteq> ?b)
             (spec_first_seen (filter (\<lambda>b. b \<notin> dict_keys g) (map base rs))))"
      unfolding new old [symmetric] by simp
    also have "\<dots> = map (\<lambda>(k, vs). (k, vs @ filter (\<lambda>r. base r = k) (r # rs))) g @
        map (\<lambda>b. (b, filter (\<lambda>r. base r = b) (r # rs)))
          (spec_first_seen (filter (\<lambda>b. b \<notin> dict_keys g) (map base (r # rs))))"
      using False by simp
    finally show ?thesis .
  qed
qed

lemma group_by_base_eq:
  "group_by_base results =
     map (\<lambda>b. (b, filter (\<lambda>r. base r = b) results)) (spec_first_seen (map base results))"
  by (simp add: group_by_base_def fold_group_step dict_keys_def)

lemma fold_filter_step:
  assumes "distinct (map fst g)" and "dict_keys acc \<inter> dict_keys g = {}"
  shows "fold filter_step g acc =
    acc @ filter (\<lambda>item. \<exists>r \<in> set (snd item). status r \<noteq> STATUS_REGISTERED) g"
  using assms
proof (induction g arbitrary: acc)
  case Nil
  show ?case by simp
next
  case (Cons item g)
  show ?case
  proof (cases "\<exists>r \<in> set (snd item). status r \<noteq> STATUS_REGISTERED")
    case True
    have absent: "fst item \<notin> dict_keys acc"
      using Cons.prems(2) by (auto simp: dict_keys_def)
    then have step: "filter_step item acc = acc @ [(fst item, snd item)]"
      using True by (simp add: filter_step_def Let_def dict_set_absent)
    have "dict_keys (acc @ [(fst item, snd item)]) \<inter> dict_keys g = {}"
      using Cons.prems by (auto simp: dict_keys_def)
    then have "fold filter_step g (acc @ [(fst item, snd item)]) =
        (acc @ [(fst item, snd item)]) @
        filter (\<lambda>item. \<exists>r \<in> set (snd item). status r \<noteq> STATUS_REGISTERED) g"
      using Cons.prems(1) by (intro Cons.IH) simp_all
    then show ?thesis
      using True by (simp add: step)
  next
    case False
    then have step: "filter_step item acc = acc"
      by (simp add: filter_step_def Let_def)
    have "dict_keys acc \<inter> dict_keys g = {}"
      using Cons.prems(2) by (auto simp: dict_keys_def)
    then have "fold filter_step g acc =
        acc @ filter (\<lambda>item. \<exists>r \<in> set (snd item). status r \<noteq> STATUS_REGISTERED) g"
      using Cons.prems(1) by (intro Cons.IH) simp_all
    then show ?thesis
      using False by (simp add: step)
  qed
qed

lemma distinct_first_seen: "distinct (spec_first_seen xs)"
  by (induction xs) (auto simp: set_first_seen)

lemma filter_interesting_groups_eq:
  "filter_interesting_groups (group_by_base results) =
     map (\<lambda>b. (b, filter (\<lambda>r. base r = b) results))
       (filter (\<lambda>b. \<exists>r \<in> set results. base r = b \<and> status r \<noteq> STATUS_REGISTERED)
          (spec_first_seen (map base results)))"
proof -
  let ?g = "map (\<lambda>b. (b, filter (\<lambda>r. base r = b) results)) (spec_first_seen (map base results))"
  have keys: "map fst ?g = spec_first_seen (map base results)"
    by (simp add: comp_def)
  have "filter_interesting_groups ?g =
      filter (\<lambda>item. \<exists>r \<in> set (snd item). status r \<noteq> STATUS_REGISTERED) ?g"
    unfolding filter_interesting_groups_def
    by (subst fold_filter_step) (simp_all only: keys distinct_first_seen dict_keys_def, simp_all)
  also have "\<dots> = map (\<lambda>b. (b, filter (\<lambda>r. base r = b) results))
       (filter (\<lambda>b. \<exists>r \<in> set results. base r = b \<and> status r \<noteq> STATUS_REGISTERED)
          (spec_first_seen (map base results)))"
  proof -
    have "(\<exists>r \<in> set (filter (\<lambda>r. base r = b) results). status r \<noteq> STATUS_REGISTERED) \<longleftrightarrow>
          (\<exists>r \<in> set results. base r = b \<and> status r \<noteq> STATUS_REGISTERED)" for b
      by auto
    then show ?thesis
      by (simp only: filter_map comp_def snd_conv)
  qed
  finally show ?thesis
    by (simp only: group_by_base_eq)
qed

text \<open>C9: \<open>group_by_base\<close> has one group for each base, in the order in which the bases
  are first seen, and the group of a base holds the results of that base in the order of
  the input. \<open>filter_interesting_groups\<close> keeps, in the same order and unchanged, exactly
  the groups of the bases that have a result whose status is not \<open>REGISTERED\<close>. A base
  with the statuses \<open>REGISTERED\<close>, \<open>REGISTERED\<close>, \<open>AVAILABLE\<close>, \<open>REGISTERED\<close> is kept
  with all four results; a base with four \<open>REGISTERED\<close> results is dropped.\<close>

theorem group_and_filter:
  "group_by_base results =
     map (\<lambda>b. (b, filter (\<lambda>r. base r = b) results)) (spec_first_seen (map base results))
   \<and> filter_interesting_groups (group_by_base results) =
     map (\<lambda>b. (b, filter (\<lambda>r. base r = b) results))
       (filter (\<lambda>b. \<exists>r \<in> set results. base r = b \<and> status r \<noteq> STATUS_REGISTERED)
          (spec_first_seen (map base results)))
   \<and> filter_interesting_groups (group_by_base
        [\<lparr>domain = ''globex.com'', status = STATUS_REGISTERED, base = ''globex''\<rparr>,
         \<lparr>domain = ''acme.com'', status = STATUS_REGISTERED, base = ''acme''\<rparr>,
         \<lparr>domain = ''globex.app'', status = STATUS_REGISTERED, base = ''globex''\<rparr>,
         \<lparr>domain = ''acme.app'', status = STATUS_REGISTERED, base = ''acme''\<rparr>,
         \<lparr>domain = ''globex.ai'', status = STATUS_REGISTERED, base = ''globex''\<rparr>,
         \<lparr>domain = ''acme.ai'', status = STATUS_AVAILABLE, base = ''acme''\<rparr>,
         \<lparr>domain = ''globex.so'', status = STATUS_REGISTERED, base = ''globex''\<rparr>,
         \<lparr>domain = ''acme.so'', status = STATUS_REGISTERED, base = ''acme''\<rparr>]) =
       [(''acme'',
         [\<lparr>domain = ''acme.com'', status = STATUS_REGISTERED, base = ''acme''\<rparr>,
          \<lparr>domain = ''acme.app'', status = STATUS_REGISTERED, base = ''acme''\<rparr>,
          \<lparr>domain = ''acme.ai'', status = STATUS_AVAILABLE, base = ''acme''\<rparr>,
          \<lparr>domain = ''acme.so'', status = STATUS_REGISTERED, base = ''acme''\<rparr>])]"
proof (intro conjI)
  show "group_by_base results =
     map (\<lambda>b. (b, filter (\<lambda>r. base r = b) results)) (spec_first_seen (map base results))"
    by (rule group_by_base_eq)
  show "filter_interesting_groups (group_by_base results) =
     map (\<lambda>b. (b, filter (\<lambda>r. base r = b) results))
       (filter (\<lambda>b. \<exists>r \<in> set results. base r = b \<and> status r \<noteq> STATUS_REGISTERED)
          (spec_first_seen (map base results)))"
    by (rule filter_interesting_groups_eq)
  show "filter_interesting_groups (group_by_base
        [\<lparr>domain = ''globex.com'', status = STATUS_REGISTERED, base = ''globex''\<rparr>,
         \<lparr>domain = ''acme.com'', status = STATUS_REGISTERED, base = ''acme''\<rparr>,
         \<lparr>domain = ''globex.app'', status = STATUS_REGISTERED, base = ''globex''\<rparr>,
         \<lparr>domain = ''acme.app'', status = STATUS_REGISTERED, base = ''acme''\<rparr>,
         \<lparr>domain = ''globex.ai'', status = STATUS_REGISTERED, base = ''globex''\<rparr>,
         \<lparr>domain = ''acme.ai'', status = STATUS_AVAILABLE, base = ''acme''\<rparr>,
         \<lparr>domain = ''globex.so'', status = STATUS_REGISTERED, base = ''globex''\<rparr>,
         \<lparr>domain = ''acme.so'', status = STATUS_REGISTERED, base = ''acme''\<rparr>]) =
       [(''acme'',
         [\<lparr>domain = ''acme.com'', status = STATUS_REGISTERED, base = ''acme''\<rparr>,
          \<lparr>domain = ''acme.app'', status = STATUS_REGISTERED, base = ''acme''\<rparr>,
          \<lparr>domain = ''acme.ai'', status = STATUS_AVAILABLE, base = ''acme''\<rparr>,
          \<lparr>domain = ''acme.so'', status = STATUS_REGISTERED, base = ''acme''\<rparr>])]"
    by code_simp
qed

theorem group_and_filter_witness:
  "filter_interesting_groups (group_by_base
      [\<lparr>domain = ''ibm.com'', status = STATUS_REGISTERED, base = ''ibm''\<rparr>,
       \<lparr>domain = ''ibmlabs.so'', status = STATUS_POSSIBLE_AVAILABLE, base = ''ibmlabs''\<rparr>,
       \<lparr>domain = ''ibm.app'', status = STATUS_REGISTERED, base = ''ibm''\<rparr>]) =
     [(''ibmlabs'',
       [\<lparr>domain = ''ibmlabs.so'', status = STATUS_POSSIBLE_AVAILABLE, base = ''ibmlabs''\<rparr>])]"
proof -
  let ?rs = "[\<lparr>domain = ''ibm.com'', status = STATUS_REGISTERED, base = ''ibm''\<rparr>,
       \<lparr>domain = ''ibmlabs.so'', status = STATUS_POSSIBLE_AVAILABLE, base = ''ibmlabs''\<rparr>,
       \<lparr>domain = ''ibm.app'', status = STATUS_REGISTERED, base = ''ibm''\<rparr>]"
  have "filter_interesting_groups (group_by_base ?rs) =
     map (\<lambda>b. (b, filter (\<lambda>r. base r = b) ?rs))
       (filter (\<lambda>b. \<exists>r \<in> set ?rs. base r = b \<and> status r \<noteq> STATUS_REGISTERED)
          (spec_first_seen (map base ?rs)))"
    by (rule group_and_filter [THEN conjunct2, THEN conjunct1])
  also have "\<dots> = [(''ibmlabs'',
       [\<lparr>domain = ''ibmlabs.so'', status = STATUS_POSSIBLE_AVAILABLE, base = ''ibmlabs''\<rparr>])]"
    by (simp add: STATUS_REGISTERED_def STATUS_POSSIBLE_AVAILABLE_def)
  finally show ?thesis .
qed

end
